theory Spec2Isabelle
  imports Main "HOL-Library.Sublist"
begin

section \<open>Data read from the chain\<close>

text \<open>
  The source reads two storage maps through the handle \<open>api\<close>: \<open>system.account\<close> and
  \<open>staking.ledger\<close>. Balances arrive as unsigned codec integers and are turned into
  JavaScript BigInts with \<open>toBigInt()\<close>. A codec integer is a \<open>nat\<close> here, a BigInt an
  \<open>int\<close>: BigInt arithmetic has no width, so \<open>+\<close> on \<open>int\<close> is the source's \<open>+\<close>.
\<close>

type_synonym bigint = int

definition toBigInt :: "nat \<Rightarrow> bigint" where
  "toBigInt n = int n"

record AccountData =
  free :: nat
  reserved :: nat
  miscFrozen :: nat
  feeFrozen :: nat

record AccountInfo =
  data :: AccountData

record UnlockChunk =
  chunk_value :: nat

record StakingLedger =
  unlocking :: "UnlockChunk list"

type_synonym 'k StartKey = "'k option"

type_synonym 'k accountEntries = "('k \<times> AccountInfo) list"

type_synonym 'k ledgerEntries = "('k \<times> StakingLedger option) list"

text \<open>
  The handle \<open>api\<close> is an object with methods, and the source calls two of them:
  \<open>api.query.system.account.entriesPaged({pageSize, args: [], startKey})\<close> and
  \<open>api.query.staking.ledger.entries()\<close>. The first is a function of the page size and the
  optional start key (\<open>undefined\<close> is \<open>None\<close>), the second returns every ledger entry, each
  value an \<open>Option<StakingLedger>\<close>. The handle is bound to one block, so both answer
  the same way every time they are asked, and neither read fails here: a failed read
  would reject the whole run before any sum is returned.
\<close>

record 'k ApiDecoration =
  entriesPaged :: "nat \<Rightarrow> 'k StartKey \<Rightarrow> 'k accountEntries"
  entries :: "'k ledgerEntries"

datatype error = UnwrapNone

text \<open>
  \<open>Option.unwrap()\<close> of the codec library returns the wrapped value and throws on a
  \<open>None\<close> value.
\<close>

definition unwrap :: "'a option \<Rightarrow> error + 'a" where
  "unwrap v = (case v of None \<Rightarrow> Inl UnwrapNone | Some x \<Rightarrow> Inr x)"

section \<open>The source's functions\<close>

text \<open>\<open>fetchAccounts\<close> (lines 64 to 74) asks for one page of 1000 entries.\<close>

definition fetchAccounts :: "'k ApiDecoration \<Rightarrow> 'k StartKey \<Rightarrow> 'k accountEntries" where
  "fetchAccounts api startKey = entriesPaged api 1000 startKey"

text \<open>The source's \<open>max\<close> (lines 76 to 78).\<close>

definition max_bigint :: "bigint \<Rightarrow> bigint \<Rightarrow> bigint" where
  "max_bigint a b = (if a > b then a else b)"

text \<open>
  \<open>unbonding\<close> (lines 80 to 90): the inner \<open>reduce\<close> over one ledger's chunks, from
  \<open>BigInt(0)\<close>, and the outer \<open>reduce\<close> over the ledgers, from \<open>BigInt(0)\<close>. The outer
  callback unwraps the ledger before it reads \<open>unlocking\<close>, so a \<open>None\<close> value ends the
  whole reduction with the error.
\<close>

definition unlockingSum :: "StakingLedger \<Rightarrow> bigint" where
  "unlockingSum ledger =
     foldl (\<lambda>unl unlockChunk. unl + toBigInt (chunk_value unlockChunk)) 0 (unlocking ledger)"

fun reduceLedgers :: "bigint \<Rightarrow> 'k ledgerEntries \<Rightarrow> error + bigint" where
  "reduceLedgers acc [] = Inr acc"
| "reduceLedgers acc ((accountId, ledger) # rest) =
     (case unwrap ledger of
        Inl e \<Rightarrow> Inl e
      | Inr l \<Rightarrow> reduceLedgers (acc + unlockingSum l) rest)"

definition unbonding :: "'k ApiDecoration \<Rightarrow> error + bigint" where
  "unbonding api = reduceLedgers 0 (entries api)"

text \<open>
  The state of \<open>calculateTokenInfo\<close> (lines 92 to 143): its local variables \<open>accounts\<close>,
  \<open>runningTotal\<close>, \<open>runningLockedUp\<close>, \<open>runningReserved\<close> and \<open>count\<close>, and what the
  run has done to the outside so far: the page requests it has sent, each with the page
  it returned (\<open>exchanges\<close>, oldest first), how often it has read \<open>performance.now()\<close>
  (\<open>ticks\<close>) and the lines it has printed (\<open>console\<close>). A progress line is kept as the
  count and the two clock readings its rate is computed from. \<open>count\<close> is a JavaScript
  number that only counts entries, a \<open>nat\<close> here.
\<close>

datatype 't log_line = Processed nat 't 't | TotalAccounts nat

record ('k, 't) scan =
  accounts :: "'k accountEntries"
  runningTotal :: bigint
  runningLockedUp :: bigint
  runningReserved :: bigint
  count :: nat
  exchanges :: "('k StartKey \<times> 'k accountEntries) list"
  ticks :: nat
  console :: "'t log_line list"

text \<open>The body of the \<open>for\<close> loop (lines 109 to 128), for one entry.\<close>

definition forEntry :: "'k \<times> AccountInfo \<Rightarrow> ('k, 't) scan \<Rightarrow> ('k, 't) scan" where
  "forEntry entry s =
     (let d = data (snd entry);
          free = toBigInt (AccountData.free d);
          feeFrozen = toBigInt (AccountData.feeFrozen d);
          miscFrozen = toBigInt (AccountData.miscFrozen d);
          reserved = toBigInt (AccountData.reserved d)
      in s\<lparr>runningTotal := runningTotal s + (free + reserved),
             runningLockedUp := runningLockedUp s + max_bigint miscFrozen feeFrozen,
             runningReserved := runningReserved s + reserved\<rparr>)"

text \<open>
  The body of the \<open>while\<close> loop (lines 101 to 130): the progress line every 10000
  entries, the key of the page's last entry, the \<open>for\<close> loop over the page, the request
  for the next page with that key, and the count. \<open>now\<close> gives the reading of the n-th
  call of \<open>performance.now()\<close>, \<open>start\<close> is the reading taken before the first request.
\<close>

definition progress :: "(nat \<Rightarrow> 't) \<Rightarrow> 't \<Rightarrow> ('k, 't) scan \<Rightarrow> ('k, 't) scan" where
  "progress now start s =
     (if count s mod 10000 = 0
      then s\<lparr>ticks := ticks s + 1,
             console := console s @ [Processed (count s) start (now (ticks s))]\<rparr>
      else s)"

definition iteration ::
  "(nat \<Rightarrow> 't) \<Rightarrow> 'k ApiDecoration \<Rightarrow> 't \<Rightarrow> ('k, 't) scan \<Rightarrow> ('k, 't) scan" where
  "iteration now api start s0 =
     (let s = progress now start s0;
          next = fst (last (accounts s));
          newAccounts = accounts s;
          s' = fold forEntry newAccounts s;
          page = fetchAccounts api (Some next)
      in s'\<lparr>accounts := page,
              exchanges := exchanges s' @ [(Some next, page)],
              count := count s' + length newAccounts\<rparr>)"

text \<open>
  The \<open>while\<close> loop ends only when a request returns an empty page, which is up to the
  node: the loop is a partial function, \<open>None\<close> when it runs forever.
\<close>

partial_function (option) while_accounts ::
  "(nat \<Rightarrow> 't) \<Rightarrow> 'k ApiDecoration \<Rightarrow> 't \<Rightarrow> ('k, 't) scan \<Rightarrow> ('k, 't) scan option" where
  "while_accounts now api start s =
     (if length (accounts s) > 0
      then while_accounts now api start (iteration now api start s)
      else Some s)"

record TokenInfoResult =
  lockedUp :: bigint
  total :: bigint
  reserved_out :: bigint
  unbonding_out :: bigint

text \<open>
  The object \<open>calculateTokenInfo\<close> returns (lines 137 to 142), and what one call leaves
  behind: the value the promise resolves to, or the error it rejects with, and the
  requests sent and lines printed.
\<close>

record ('k, 't) run =
  outcome :: "error + TokenInfoResult"
  requested :: "('k StartKey \<times> 'k accountEntries) list"
  printed :: "'t log_line list"

text \<open>
  Before the loop (lines 93 to 98): the clock is read once, the first page is requested
  without a start key, and the sums and the count start at 0. After the loop (lines 133
  to 142): \<open>unbonding\<close> runs, and when it fails the call fails with its error before the
  last line is printed.
\<close>

definition initial :: "'k ApiDecoration \<Rightarrow> ('k, 't) scan" where
  "initial api =
     (let page = fetchAccounts api None
      in \<lparr>accounts = page, runningTotal = 0, runningLockedUp = 0, runningReserved = 0,
          count = 0, exchanges = [(None, page)], ticks = 1, console = []\<rparr>)"

definition finish :: "'k ApiDecoration \<Rightarrow> ('k, 't) scan \<Rightarrow> ('k, 't) run" where
  "finish api s =
     (case unbonding api of
        Inl e \<Rightarrow> \<lparr>outcome = Inl e, requested = exchanges s, printed = console s\<rparr>
      | Inr unbondingTotal \<Rightarrow>
          \<lparr>outcome = Inr \<lparr>lockedUp = runningLockedUp s, total = runningTotal s,
                          reserved_out = runningReserved s, unbonding_out = unbondingTotal\<rparr>,
           requested = exchanges s,
           printed = console s @ [TotalAccounts (count s)]\<rparr>)"

definition calculateTokenInfo ::
  "(nat \<Rightarrow> 't) \<Rightarrow> 'k ApiDecoration \<Rightarrow> ('k, 't) run option" where
  "calculateTokenInfo now api =
     map_option (finish api) (while_accounts now api (now 0) (initial api))"

section \<open>The node behind the handle\<close>

text \<open>
  \<open>entriesPaged\<close> and \<open>entries\<close> belong to the client library and the node, not to this
  repository. What they return is taken from the spec's storage read boundary, \<open>readPage\<close>
  and \<open>readAll\<close>, and its page cursor iterator. The handle is bound to one block, so the
  account table is one fixed list of entries in the storage's order.
\<close>

text \<open>
  Modelled from the spec: the continuation key of the page cursor iterator, which is
  missing from the source. The entries that follow the entry with key \<open>k\<close> in the table;
  none when no entry has that key.
\<close>

definition after :: "'k \<Rightarrow> 'k accountEntries \<Rightarrow> 'k accountEntries" where
  "after k tbl = tl (dropWhile (\<lambda>e. fst e \<noteq> k) tbl)"

text \<open>
  Modelled from the spec: \<open>readPage(handle, table, pageSize, cursor?)\<close> of the storage read
  boundary, which is missing from the source. A request without a cursor is answered from
  the beginning of the table, a request with a cursor from the entry after that key, and
  the page holds the first \<open>pageSize\<close> entries from there.
\<close>

definition readPage :: "'k accountEntries \<Rightarrow> nat \<Rightarrow> 'k StartKey \<Rightarrow> 'k accountEntries" where
  "readPage tbl pageSize cursor =
     take pageSize (case cursor of None \<Rightarrow> tbl | Some k \<Rightarrow> after k tbl)"

text \<open>
  Modelled from the spec: the snapshot handle, which is missing from the source. It is
  bound to an account table and a ledger table, serves the first in pages with
  \<open>readPage\<close> and returns the second whole (\<open>readAll\<close>).
\<close>

definition snapshot :: "'k accountEntries \<Rightarrow> 'k ledgerEntries \<Rightarrow> 'k ApiDecoration" where
  "snapshot tbl ledgers = \<lparr>entriesPaged = readPage tbl, entries = ledgers\<rparr>"

text \<open>
  Modelled from the spec: a handle whose pages are shorter than asked for, which the
  spec's "at most \<open>pageSize\<close> entries" allows and which is missing from the source.
  \<open>node limit\<close> never returns more than \<open>limit\<close> entries in one page.
\<close>

definition node :: "nat \<Rightarrow> 'k accountEntries \<Rightarrow> 'k ledgerEntries \<Rightarrow> 'k ApiDecoration" where
  "node limit tbl ledgers =
     \<lparr>entriesPaged = (\<lambda>pageSize. readPage tbl (min pageSize limit)), entries = ledgers\<rparr>"

text \<open>
  Modelled from the spec: the contract of the page cursor iterator, which is missing from
  the source, for any handle. Every page is a leading part of what the table holds from
  the cursor on, has at most \<open>pageSize\<close> entries, and is empty only when nothing is left
  or no entry is asked for.
\<close>

definition serves :: "'k ApiDecoration \<Rightarrow> 'k accountEntries \<Rightarrow> bool" where
  "serves api tbl \<longleftrightarrow>
     (\<forall>pageSize cursor.
        prefix (entriesPaged api pageSize cursor)
               (case cursor of None \<Rightarrow> tbl | Some k \<Rightarrow> after k tbl)
      \<and> length (entriesPaged api pageSize cursor) \<le> pageSize
      \<and> (0 < pageSize \<and> (case cursor of None \<Rightarrow> tbl | Some k \<Rightarrow> after k tbl) \<noteq> []
           \<longrightarrow> entriesPaged api pageSize cursor \<noteq> []))"

section \<open>A handle whose answers can change, and the composition in the other order\<close>


text \<open>
  The \<open>while\<close> loop of lines 100 to 131 on such a handle. \<open>k\<close> reads came before the
  scan, the scan has sent \<open>length (exchanges s)\<close> requests so far, and the next page is
  what the handle answers after that many reads. The body is \<open>iteration\<close>, unchanged.
\<close>

partial_function (option) while_remote ::
  "(nat \<Rightarrow> 't) \<Rightarrow> (nat \<Rightarrow> 'k ApiDecoration) \<Rightarrow> 't \<Rightarrow> nat \<Rightarrow> ('k, 't) scan
     \<Rightarrow> ('k, 't) scan option" where
  "while_remote now remote start k s =
     (if length (accounts s) > 0
      then while_remote now remote start k
             (iteration now (remote (k + length (exchanges s))) start s)
      else Some s)"

text \<open>
  \<open>calculateTokenInfo\<close> in the order of the source: the first page is the first read of
  the run, and the ledger scan comes after all page requests.
\<close>

definition calculateTokenInfo_remote ::
  "(nat \<Rightarrow> 't) \<Rightarrow> (nat \<Rightarrow> 'k ApiDecoration) \<Rightarrow> ('k, 't) run option" where
  "calculateTokenInfo_remote now remote =
     map_option (\<lambda>s. finish (remote (length (exchanges s))) s)
       (while_remote now remote (now 0) 0 (initial (remote 0)))"

text \<open>
  The spec calls the order of the two aggregators immaterial. This is the composition
  with the ledger aggregator first: the ledger scan is the first read of the run and the
  page requests come after it. When the ledger scan fails, no page is requested.
\<close>

definition calculateTokenInfo_ledger_first ::
  "(nat \<Rightarrow> 't) \<Rightarrow> (nat \<Rightarrow> 'k ApiDecoration) \<Rightarrow> ('k, 't) run option" where
  "calculateTokenInfo_ledger_first now remote =
     (case unbonding (remote 0) of
        Inl e \<Rightarrow> Some \<lparr>outcome = Inl e, requested = [], printed = []\<rparr>
      | Inr unbondingTotal \<Rightarrow>
          map_option
            (\<lambda>s. \<lparr>outcome = Inr \<lparr>lockedUp = runningLockedUp s, total = runningTotal s,
                                   reserved_out = runningReserved s,
                                   unbonding_out = unbondingTotal\<rparr>,
                  requested = exchanges s,
                  printed = console s @ [TotalAccounts (count s)]\<rparr>)
            (while_remote now remote (now 0) 1 (initial (remote 1))))"

section \<open>Sums and the invariant of the request trace\<close>

text \<open>
  The three sums the account scan computes, and the sum of the chunks of all ledgers that
  are present.
\<close>

definition sumTotal :: "'k accountEntries \<Rightarrow> int" where
  "sumTotal es = (\<Sum>e\<leftarrow>es. int (free (data (snd e))) + int (AccountData.reserved (data (snd e))))"

definition sumLockedUp :: "'k accountEntries \<Rightarrow> int" where
  "sumLockedUp es = (\<Sum>e\<leftarrow>es. max (int (miscFrozen (data (snd e)))) (int (feeFrozen (data (snd e)))))"

definition sumReserved :: "'k accountEntries \<Rightarrow> int" where
  "sumReserved es = (\<Sum>e\<leftarrow>es. int (AccountData.reserved (data (snd e))))"

definition sumUnlocking :: "'k ledgerEntries \<Rightarrow> int" where
  "sumUnlocking ledgers =
     (\<Sum>e\<leftarrow>ledgers. case snd e of
                      None \<Rightarrow> 0
                    | Some l \<Rightarrow> (\<Sum>c\<leftarrow>unlocking l. int (chunk_value c)))"

text \<open>
  The invariant of the request trace: it starts with the request without a start key, its
  last page is the one in \<open>accounts\<close>, every request after the first follows a page that
  was not empty and carries the key of that page's last entry, and every page in the
  trace is what the handle returned for its request.
\<close>

definition chained :: "'k ApiDecoration \<Rightarrow> ('k, 't) scan \<Rightarrow> bool" where
  "chained api s \<longleftrightarrow>
     exchanges s \<noteq> []
   \<and> snd (last (exchanges s)) = accounts s
   \<and> fst (hd (exchanges s)) = None
   \<and> (\<forall>i. Suc i < length (exchanges s) \<longrightarrow>
          snd (exchanges s ! i) \<noteq> []
        \<and> fst (exchanges s ! Suc i) = Some (fst (last (snd (exchanges s ! i)))))
   \<and> (\<forall>e \<in> set (exchanges s). snd e = fetchAccounts api (fst e))"

section \<open>The account scan\<close>

lemma max_bigint_max: "max_bigint a b = max a b"
  by (simp add: max_bigint_def max_def)

lemma forEntry_explicit:
  "forEntry e s =
     s\<lparr>runningTotal := runningTotal s + sumTotal [e],
       runningLockedUp := runningLockedUp s + sumLockedUp [e],
       runningReserved := runningReserved s + sumReserved [e]\<rparr>"
  by (simp add: forEntry_def Let_def toBigInt_def max_bigint_max
      sumTotal_def sumLockedUp_def sumReserved_def)

lemma sums_Cons:
  "sumTotal (e # es) = sumTotal [e] + sumTotal es"
  "sumLockedUp (e # es) = sumLockedUp [e] + sumLockedUp es"
  "sumReserved (e # es) = sumReserved [e] + sumReserved es"
  by (simp_all add: sumTotal_def sumLockedUp_def sumReserved_def)

lemma sums_Nil: "sumTotal [] = 0" "sumLockedUp [] = 0" "sumReserved [] = 0"
  by (simp_all add: sumTotal_def sumLockedUp_def sumReserved_def)

lemma fold_forEntry:
  "fold forEntry es s =
     s\<lparr>runningTotal := runningTotal s + sumTotal es,
       runningLockedUp := runningLockedUp s + sumLockedUp es,
       runningReserved := runningReserved s + sumReserved es\<rparr>"
proof (induction es arbitrary: s)
  case Nil
  show ?case by (simp add: sums_Nil)
next
  case (Cons e es)
  have "fold forEntry (e # es) s = fold forEntry es (forEntry e s)"
    by simp
  also have "\<dots> = (forEntry e s)
     \<lparr>runningTotal := runningTotal (forEntry e s) + sumTotal es,
       runningLockedUp := runningLockedUp (forEntry e s) + sumLockedUp es,
       runningReserved := runningReserved (forEntry e s) + sumReserved es\<rparr>"
    by (rule Cons.IH)
  also have "\<dots> = s
     \<lparr>runningTotal := runningTotal s + sumTotal (e # es),
       runningLockedUp := runningLockedUp s + sumLockedUp (e # es),
       runningReserved := runningReserved s + sumReserved (e # es)\<rparr>"
    by (simp add: forEntry_explicit sums_Cons [of e es])
  finally show ?case .
qed

lemma progress_fields:
  "accounts (progress now start s) = accounts s"
  "runningTotal (progress now start s) = runningTotal s"
  "runningLockedUp (progress now start s) = runningLockedUp s"
  "runningReserved (progress now start s) = runningReserved s"
  "count (progress now start s) = count s"
  "exchanges (progress now start s) = exchanges s"
  by (simp_all add: progress_def)

lemma iteration_fields:
  "accounts (iteration now api start s) = fetchAccounts api (Some (fst (last (accounts s))))"
  "runningTotal (iteration now api start s) = runningTotal s + sumTotal (accounts s)"
  "runningLockedUp (iteration now api start s) = runningLockedUp s + sumLockedUp (accounts s)"
  "runningReserved (iteration now api start s) = runningReserved s + sumReserved (accounts s)"
  "count (iteration now api start s) = count s + length (accounts s)"
  "exchanges (iteration now api start s) =
     exchanges s @ [(Some (fst (last (accounts s))),
                     fetchAccounts api (Some (fst (last (accounts s)))))]"
  by (simp_all add: iteration_def Let_def fold_forEntry progress_fields)

lemma after_last:
  assumes "distinct (map fst (xs @ pg @ ys))" and "pg \<noteq> []"
  shows "after (fst (last pg)) (xs @ pg @ ys) = ys"
proof -
  obtain bs b where pg: "pg = bs @ [b]"
    using assms(2) by (metis append_butlast_last_id)
  have "distinct (map fst (xs @ bs) @ fst b # map fst ys)"
    using assms(1) unfolding pg by simp
  then have "set (map fst (xs @ bs)) \<inter> set (fst b # map fst ys) = {}"
    by (simp only: distinct_append)
  then have "fst b \<notin> set (map fst (xs @ bs))"
    by (meson disjoint_iff list.set_intros(1))
  then have notin: "\<forall>e \<in> set (xs @ bs). fst e \<noteq> fst b"
    by (metis image_eqI list.set_map)
  have "dropWhile (\<lambda>e. fst e \<noteq> fst b) ((xs @ bs) @ b # ys) = b # ys"
    using notin by (simp add: dropWhile_append3)
  then show ?thesis by (simp add: after_def pg)
qed

lemma fetch_snapshot:
  "fetchAccounts (snapshot tbl ledgers) cursor = readPage tbl 1000 cursor"
  by (simp add: fetchAccounts_def snapshot_def)

lemma sums_append:
  "sumTotal (xs @ ys) = sumTotal xs + sumTotal ys"
  "sumLockedUp (xs @ ys) = sumLockedUp xs + sumLockedUp ys"
  "sumReserved (xs @ ys) = sumReserved xs + sumReserved ys"
  by (simp_all add: sumTotal_def sumLockedUp_def sumReserved_def)

lemma pages_arith:
  "rest \<noteq> [] \<Longrightarrow>
     Suc ((length rest - 1000 + 999) div 1000) = (length rest + 999) div 1000"
proof -
  assume "rest \<noteq> []"
  then have pos: "0 < length rest" by simp
  show ?thesis
  proof (cases "length rest < 1000")
    case True
    have lo: "1000 * 1 \<le> length rest + 999"
      using pos by linarith
    have hi: "length rest + 999 < 1000 * Suc 1"
      using True by simp
    have "(length rest + 999) div 1000 = 1"
      using lo hi by (rule div_nat_eqI)
    then show ?thesis using True by simp
  next
    case False
    then have "length rest + 999 = (length rest - 1000 + 999) + 1000" by simp
    then have "(length rest + 999) div 1000 = ((length rest - 1000 + 999) + 1000) div 1000"
      by (rule arg_cong)
    then show ?thesis by (simp only: div_add_self2)
  qed
qed

lemma while_snapshot:
  assumes "distinct (map fst tbl)"
      and "tbl = seen @ accounts s @ rest"
      and "accounts s = take 1000 (accounts s @ rest)"
  shows "\<exists>s'. while_accounts now (snapshot tbl ledgers) start s = Some s'
      \<and> accounts s' = []
      \<and> count s' = count s + length (accounts s @ rest)
      \<and> runningTotal s' = runningTotal s + sumTotal (accounts s @ rest)
      \<and> runningLockedUp s' = runningLockedUp s + sumLockedUp (accounts s @ rest)
      \<and> runningReserved s' = runningReserved s + sumReserved (accounts s @ rest)
      \<and> concat (map snd (exchanges s')) = concat (map snd (exchanges s)) @ rest
      \<and> length (exchanges s') = length (exchanges s) +
            (if accounts s = [] then 0 else (length rest + 999) div 1000 + 1)"
  using assms
proof (induction "length (accounts s @ rest)" arbitrary: s seen rest rule: less_induct)
  case less
  let ?api = "snapshot tbl ledgers"
  show ?case
  proof (cases "accounts s = []")
    case True
    with less.prems(3) have "rest = []" by simp
    moreover have "while_accounts now ?api start s = Some s"
      using True by (subst while_accounts.simps) simp
    ultimately show ?thesis using True by (simp add: sums_Nil)
  next
    case False
    define s1 where "s1 = iteration now ?api start s"
    have acc1: "accounts s1 = take 1000 rest"
      using after_last [of seen "accounts s" rest] less.prems(1,2) False
      by (simp add: s1_def iteration_fields fetch_snapshot readPage_def)
    have dec: "tbl = (seen @ accounts s) @ accounts s1 @ drop 1000 rest"
      using less.prems(2) by (simp add: acc1)
    have full: "accounts s1 = take 1000 (accounts s1 @ drop 1000 rest)"
      by (simp add: acc1)
    have shorter: "length (accounts s1 @ drop 1000 rest) < length (accounts s @ rest)"
      using False by (simp add: acc1)
    obtain s' where s': "while_accounts now ?api start s1 = Some s'"
      "accounts s' = []"
      "count s' = count s1 + length (accounts s1 @ drop 1000 rest)"
      "runningTotal s' = runningTotal s1 + sumTotal (accounts s1 @ drop 1000 rest)"
      "runningLockedUp s' = runningLockedUp s1 + sumLockedUp (accounts s1 @ drop 1000 rest)"
      "runningReserved s' = runningReserved s1 + sumReserved (accounts s1 @ drop 1000 rest)"
      "concat (map snd (exchanges s')) = concat (map snd (exchanges s1)) @ drop 1000 rest"
      "length (exchanges s') = length (exchanges s1) +
         (if accounts s1 = [] then 0 else (length (drop 1000 rest) + 999) div 1000 + 1)"
      using less.hyps [OF shorter less.prems(1) dec full] by blast
    have whole: "accounts s1 @ drop 1000 rest = rest"
      by (simp add: acc1)
    have step: "while_accounts now ?api start s = while_accounts now ?api start s1"
      using False by (subst while_accounts.simps) (simp add: s1_def)
    have ex1: "exchanges s1 = exchanges s @ [(Some (fst (last (accounts s))), accounts s1)]"
      by (simp add: s1_def iteration_fields)
    have c: "count s' = count s + length (accounts s @ rest)"
      using s'(3) by (simp add: whole) (simp add: s1_def iteration_fields)
    have t: "runningTotal s' = runningTotal s + sumTotal (accounts s @ rest)"
      using s'(4) by (simp add: whole sums_append) (simp add: s1_def iteration_fields)
    have l: "runningLockedUp s' = runningLockedUp s + sumLockedUp (accounts s @ rest)"
      using s'(5) by (simp add: whole sums_append) (simp add: s1_def iteration_fields)
    have r: "runningReserved s' = runningReserved s + sumReserved (accounts s @ rest)"
      using s'(6) by (simp add: whole sums_append) (simp add: s1_def iteration_fields)
    have p: "concat (map snd (exchanges s')) = concat (map snd (exchanges s)) @ rest"
      using s'(7) by (simp add: ex1 whole)
    have n: "length (exchanges s') = length (exchanges s) + ((length rest + 999) div 1000 + 1)"
    proof (cases "rest = []")
      case True
      then show ?thesis using s'(8) by (simp add: ex1 acc1)
    next
      case False
      then show ?thesis using s'(8) pages_arith [OF False] by (simp add: ex1 acc1)
    qed
    show ?thesis
      using s'(1,2) c t l r p n False by (simp add: step)
  qed
qed

lemma snapshot_serves: "serves (snapshot tbl ledgers) tbl"
  by (simp add: serves_def snapshot_def readPage_def take_is_prefix)

lemma chained_initial: "chained api (initial api)"
  by (simp add: chained_def initial_def Let_def)

lemma chained_iteration:
  assumes "chained api s" and "accounts s \<noteq> []"
  shows "chained api (iteration now api start s)"
proof -
  let ?k = "fst (last (accounts s))"
  let ?x = "(Some ?k, fetchAccounts api (Some ?k))"
  let ?ex = "exchanges s"
  have ex: "exchanges (iteration now api start s) = ?ex @ [?x]"
    by (simp add: iteration_fields)
  have ne: "?ex \<noteq> []" and la: "snd (last ?ex) = accounts s"
    and hd: "fst (hd ?ex) = None"
    and ch: "\<And>i. Suc i < length ?ex \<Longrightarrow>
          snd (?ex ! i) \<noteq> [] \<and> fst (?ex ! Suc i) = Some (fst (last (snd (?ex ! i))))"
    and fe: "\<And>e. e \<in> set ?ex \<Longrightarrow> snd e = fetchAccounts api (fst e)"
    using assms(1) unfolding chained_def by blast+
  have step: "snd ((?ex @ [?x]) ! i) \<noteq> []
        \<and> fst ((?ex @ [?x]) ! Suc i) = Some (fst (last (snd ((?ex @ [?x]) ! i))))"
    if "Suc i < length (?ex @ [?x])" for i
  proof (cases "Suc i < length ?ex")
    case True
    then show ?thesis using ch [OF True] by (simp add: nth_append)
  next
    case False
    with that have i: "Suc i = length ?ex" by simp
    then have "?ex ! i = last ?ex"
      using ne by (metis diff_Suc_1 last_conv_nth)
    then have "snd (?ex ! i) = accounts s" using la by simp
    then show ?thesis using i assms(2) by (simp add: nth_append)
  qed
  have c1: "?ex @ [?x] \<noteq> []" by simp
  have c2: "snd (last (?ex @ [?x])) = accounts (iteration now api start s)"
    by (simp add: iteration_fields)
  have c3: "fst (hd (?ex @ [?x])) = None"
    using ne hd by simp
  have c5: "\<forall>e \<in> set (?ex @ [?x]). snd e = fetchAccounts api (fst e)"
    using fe by simp
  show ?thesis
    unfolding chained_def ex
    using c1 c2 c3 step c5 by blast
qed


lemma chained_while_imp:
  "while_accounts now api start s = Some s' \<Longrightarrow>
     chained api s \<longrightarrow> chained api s' \<and> accounts s' = []"
proof (induction now api start s s'
    rule: while_accounts.raw_induct [rotated, consumes 1, case_names step])
  case (step f now api start s s')
  show ?case
  proof (cases "accounts s = []")
    case True
    with step(2) show ?thesis by simp
  next
    case False
    with step(2) have "f now api start (iteration now api start s) = Some s'" by simp
    from step(1) [OF this] have
      "chained api (iteration now api start s) \<longrightarrow> chained api s' \<and> accounts s' = []" .
    moreover have "chained api s \<longrightarrow> chained api (iteration now api start s)"
      using False by (simp add: chained_iteration)
    ultimately show ?thesis by simp
  qed
qed

lemma chained_while:
  assumes "while_accounts now api start s = Some s'" and "chained api s"
  shows "chained api s' \<and> accounts s' = []"
  using chained_while_imp [OF assms(1)] assms(2) by simp

lemma serves_next:
  assumes "serves api tbl" and "distinct (map fst tbl)"
      and "tbl = seen @ pg @ rest" and "pg \<noteq> []"
  shows "prefix (fetchAccounts api (Some (fst (last pg)))) rest"
    and "rest \<noteq> [] \<Longrightarrow> fetchAccounts api (Some (fst (last pg))) \<noteq> []"
proof -
  have a: "after (fst (last pg)) tbl = rest"
    using after_last [of seen pg rest] assms(2,3,4) by simp
  have "prefix (entriesPaged api 1000 (Some (fst (last pg))))
          (case Some (fst (last pg)) of None \<Rightarrow> tbl | Some k \<Rightarrow> after k tbl)"
    using assms(1) unfolding serves_def by blast
  then show "prefix (fetchAccounts api (Some (fst (last pg)))) rest"
    by (simp add: a fetchAccounts_def)
  have "(0::nat) < 1000 \<and>
        (case Some (fst (last pg)) of None \<Rightarrow> tbl | Some k \<Rightarrow> after k tbl) \<noteq> []
        \<longrightarrow> entriesPaged api 1000 (Some (fst (last pg))) \<noteq> []"
    using assms(1) unfolding serves_def by blast
  then show "rest \<noteq> [] \<Longrightarrow> fetchAccounts api (Some (fst (last pg))) \<noteq> []"
    by (simp add: a fetchAccounts_def)
qed

lemma while_serves:
  assumes "serves api tbl" and "distinct (map fst tbl)"
      and "tbl = seen @ accounts s @ rest"
      and "accounts s = [] \<longrightarrow> rest = []"
  shows "\<exists>s'. while_accounts now api start s = Some s'
      \<and> accounts s' = []
      \<and> count s' = count s + length (accounts s @ rest)
      \<and> runningTotal s' = runningTotal s + sumTotal (accounts s @ rest)
      \<and> runningLockedUp s' = runningLockedUp s + sumLockedUp (accounts s @ rest)
      \<and> runningReserved s' = runningReserved s + sumReserved (accounts s @ rest)
      \<and> concat (map snd (exchanges s')) = concat (map snd (exchanges s)) @ rest"
  using assms(3,4)
proof (induction "length rest" arbitrary: s seen rest rule: less_induct)
  case less
  show ?case
  proof (cases "accounts s = []")
    case True
    with less.prems(2) have "rest = []" by simp
    moreover have "while_accounts now api start s = Some s"
      using True by (subst while_accounts.simps) simp
    ultimately show ?thesis using True by (simp add: sums_Nil)
  next
    case False
    define s1 where "s1 = iteration now api start s"
    have acc1: "accounts s1 = fetchAccounts api (Some (fst (last (accounts s))))"
      by (simp add: s1_def iteration_fields)
    have "prefix (accounts s1) rest"
      unfolding acc1 using assms(1,2) less.prems(1) False by (rule serves_next(1))
    then obtain rest1 where whole: "rest = accounts s1 @ rest1"
      by (auto simp add: prefix_def)
    have empty: "accounts s1 = [] \<longrightarrow> rest1 = []"
    proof
      assume e: "accounts s1 = []"
      have "rest \<noteq> [] \<Longrightarrow> accounts s1 \<noteq> []"
        unfolding acc1 using assms(1,2) less.prems(1) False by (rule serves_next(2))
      with e have "rest = []" by blast
      with whole show "rest1 = []" by simp
    qed
    have dec: "tbl = (seen @ accounts s) @ accounts s1 @ rest1"
      using less.prems(1) whole by simp
    show ?thesis
    proof (cases "accounts s1 = []")
      case True
      with empty whole have r: "rest = []" by simp
      have "while_accounts now api start s1 = Some s1"
        using True by (subst while_accounts.simps) simp
      moreover have "while_accounts now api start s = while_accounts now api start s1"
        using False by (subst while_accounts.simps) (simp add: s1_def)
      ultimately have w: "while_accounts now api start s = Some s1" by simp
      have "concat (map snd (exchanges s1)) = concat (map snd (exchanges s))"
        using True acc1 by (simp add: s1_def iteration_fields)
      then show ?thesis
        using w True r by (simp add: sums_Nil) (simp add: s1_def iteration_fields)
    next
      case ne: False
      have shorter: "length rest1 < length rest"
        using whole ne by simp
      obtain s' where s': "while_accounts now api start s1 = Some s'"
        "accounts s' = []"
        "count s' = count s1 + length (accounts s1 @ rest1)"
        "runningTotal s' = runningTotal s1 + sumTotal (accounts s1 @ rest1)"
        "runningLockedUp s' = runningLockedUp s1 + sumLockedUp (accounts s1 @ rest1)"
        "runningReserved s' = runningReserved s1 + sumReserved (accounts s1 @ rest1)"
        "concat (map snd (exchanges s')) = concat (map snd (exchanges s1)) @ rest1"
        using less.hyps [OF shorter dec empty] by blast
      have step: "while_accounts now api start s = while_accounts now api start s1"
        using False by (subst while_accounts.simps) (simp add: s1_def)
      have ex1: "exchanges s1 = exchanges s @ [(Some (fst (last (accounts s))), accounts s1)]"
        by (simp add: s1_def iteration_fields)
      have c: "count s' = count s + length (accounts s @ rest)"
        using s'(3) by (simp add: whole [symmetric]) (simp add: s1_def iteration_fields)
      have t: "runningTotal s' = runningTotal s + sumTotal (accounts s @ rest)"
        using s'(4) by (simp add: whole [symmetric] sums_append) (simp add: s1_def iteration_fields)
      have l: "runningLockedUp s' = runningLockedUp s + sumLockedUp (accounts s @ rest)"
        using s'(5) by (simp add: whole [symmetric] sums_append) (simp add: s1_def iteration_fields)
      have r: "runningReserved s' = runningReserved s + sumReserved (accounts s @ rest)"
        using s'(6) by (simp add: whole [symmetric] sums_append) (simp add: s1_def iteration_fields)
      have p: "concat (map snd (exchanges s')) = concat (map snd (exchanges s)) @ rest"
        using s'(7) by (simp add: ex1 whole)
      show ?thesis
        using s'(1,2) c t l r p by (simp add: step)
    qed
  qed
qed

lemma foldl_unlocking:
  "foldl (\<lambda>unl unlockChunk. unl + toBigInt (chunk_value unlockChunk)) z cs =
     z + (\<Sum>c\<leftarrow>cs. int (chunk_value c))"
  by (induction cs arbitrary: z) (simp_all add: toBigInt_def)

lemma unlockingSum_sum: "unlockingSum l = (\<Sum>c\<leftarrow>unlocking l. int (chunk_value c))"
  by (simp add: unlockingSum_def foldl_unlocking)

lemma reduceLedgers_present:
  "\<forall>e \<in> set es. snd e \<noteq> None \<Longrightarrow> reduceLedgers acc es = Inr (acc + sumUnlocking es)"
proof (induction es arbitrary: acc)
  case Nil
  show ?case by (simp add: sumUnlocking_def)
next
  case (Cons e es)
  obtain k l where e: "e = (k, Some l)"
    using Cons.prems by (cases e) auto
  have "reduceLedgers acc (e # es) = reduceLedgers (acc + unlockingSum l) es"
    by (simp add: e unwrap_def)
  also have "\<dots> = Inr (acc + unlockingSum l + sumUnlocking es)"
    using Cons.prems by (intro Cons.IH) simp
  finally show ?case
    by (simp add: e sumUnlocking_def unlockingSum_sum)
qed

lemma reduceLedgers_absent:
  "\<exists>e \<in> set es. snd e = None \<Longrightarrow> reduceLedgers acc es = Inl UnwrapNone"
proof (induction es arbitrary: acc)
  case Nil
  then show ?case by simp
next
  case (Cons e es)
  obtain k v where e: "e = (k, v)" by (cases e)
  show ?case
  proof (cases v)
    case None
    then show ?thesis by (simp add: e unwrap_def)
  next
    case (Some l)
    with Cons.prems e have "\<exists>e \<in> set es. snd e = None" by simp
    then have "reduceLedgers (acc + unlockingSum l) es = Inl UnwrapNone"
      by (rule Cons.IH)
    then show ?thesis by (simp add: e Some unwrap_def)
  qed
qed

lemma unbonding_cases:
  "unbonding api =
     (if \<exists>e \<in> set (entries api). snd e = None then Inl UnwrapNone
      else Inr (sumUnlocking (entries api)))"
  using reduceLedgers_absent [of "entries api" 0] reduceLedgers_present [of "entries api" 0]
  by (simp add: unbonding_def)

lemma initial_fields:
  "accounts (initial api) = fetchAccounts api None"
  "runningTotal (initial api) = 0"
  "runningLockedUp (initial api) = 0"
  "runningReserved (initial api) = 0"
  "count (initial api) = 0"
  "exchanges (initial api) = [(None, fetchAccounts api None)]"
  by (simp_all add: initial_def Let_def)

lemma serves_first:
  assumes "serves api tbl"
  shows "prefix (fetchAccounts api None) tbl"
    and "tbl \<noteq> [] \<Longrightarrow> fetchAccounts api None \<noteq> []"
proof -
  have "prefix (entriesPaged api 1000 None) (case None of None \<Rightarrow> tbl | Some k \<Rightarrow> after k tbl)"
    using assms unfolding serves_def by blast
  then show "prefix (fetchAccounts api None) tbl"
    by (simp add: fetchAccounts_def)
  have "(0::nat) < 1000 \<and> (case None of None \<Rightarrow> tbl | Some k \<Rightarrow> after k tbl) \<noteq> []
        \<longrightarrow> entriesPaged api 1000 None \<noteq> []"
    using assms unfolding serves_def by blast
  then show "tbl \<noteq> [] \<Longrightarrow> fetchAccounts api None \<noteq> []"
    by (simp add: fetchAccounts_def)
qed

lemma scan_serves:
  fixes now :: "nat \<Rightarrow> 't" and api :: "'k ApiDecoration"
  assumes "serves api tbl" and "distinct (map fst tbl)"
  shows "\<exists>s'. while_accounts now api start (initial api) = Some s'
      \<and> accounts s' = []
      \<and> count s' = length tbl
      \<and> runningTotal s' = sumTotal tbl
      \<and> runningLockedUp s' = sumLockedUp tbl
      \<and> runningReserved s' = sumReserved tbl
      \<and> concat (map snd (exchanges s')) = tbl
      \<and> chained api s'"
proof -
  let ?s0 = "initial api :: ('k, 't) scan"
  obtain rest where whole: "tbl = fetchAccounts api None @ rest"
    using serves_first(1) [OF assms(1)] unfolding prefix_def by blast
  have dec: "tbl = [] @ accounts ?s0 @ rest"
    using whole by (simp add: initial_fields)
  have empty: "accounts ?s0 = [] \<longrightarrow> rest = []"
  proof
    assume "accounts ?s0 = []"
    then have e: "fetchAccounts api None = []" by (simp add: initial_fields)
    with serves_first(2) [OF assms(1)] have "tbl = []" by blast
    with whole show "rest = []" by simp
  qed
  have "\<exists>s'. while_accounts now api start ?s0 = Some s'
      \<and> accounts s' = []
      \<and> count s' = count ?s0 + length (accounts ?s0 @ rest)
      \<and> runningTotal s' = runningTotal ?s0 + sumTotal (accounts ?s0 @ rest)
      \<and> runningLockedUp s' =
          runningLockedUp ?s0 + sumLockedUp (accounts ?s0 @ rest)
      \<and> runningReserved s' =
          runningReserved ?s0 + sumReserved (accounts ?s0 @ rest)
      \<and> concat (map snd (exchanges s')) = concat (map snd (exchanges ?s0)) @ rest"
    using assms dec empty by (rule while_serves)
  then obtain s' where s': "while_accounts now api start ?s0 = Some s'"
    "accounts s' = []"
    "count s' = count ?s0 + length (accounts ?s0 @ rest)"
    "runningTotal s' = runningTotal ?s0 + sumTotal (accounts ?s0 @ rest)"
    "runningLockedUp s' = runningLockedUp ?s0 + sumLockedUp (accounts ?s0 @ rest)"
    "runningReserved s' = runningReserved ?s0 + sumReserved (accounts ?s0 @ rest)"
    "concat (map snd (exchanges s')) = concat (map snd (exchanges ?s0)) @ rest"
    by blast
  have w: "accounts ?s0 @ rest = tbl"
    using whole by (simp add: initial_fields)
  have c: "count s' = length tbl"
    using s'(3) [unfolded w] by (simp add: initial_fields)
  have t: "runningTotal s' = sumTotal tbl"
    using s'(4) [unfolded w] by (simp add: initial_fields)
  have l: "runningLockedUp s' = sumLockedUp tbl"
    using s'(5) [unfolded w] by (simp add: initial_fields)
  have r: "runningReserved s' = sumReserved tbl"
    using s'(6) [unfolded w] by (simp add: initial_fields)
  have "concat (map snd (exchanges s')) = fetchAccounts api None @ rest"
    using s'(7) by (simp add: initial_fields)
  then have p: "concat (map snd (exchanges s')) = tbl"
    using whole by simp
  have ch: "chained api s'"
    using chained_while [OF s'(1) chained_initial] by simp
  show ?thesis using s'(1,2) c t l r p ch by blast
qed

lemma scan_snapshot_requests:
  fixes now :: "nat \<Rightarrow> 't" and tbl :: "'k accountEntries"
  assumes "distinct (map fst tbl)"
  shows "\<exists>s'. while_accounts now (snapshot tbl ledgers) start (initial (snapshot tbl ledgers)) = Some s'
      \<and> length (exchanges s') = (length tbl + 999) div 1000 + 1"
proof -
  let ?api = "snapshot tbl ledgers"
  let ?s0 = "initial ?api :: ('k, 't) scan"
  have a0: "accounts ?s0 = take 1000 tbl"
    by (simp add: initial_fields fetch_snapshot readPage_def)
  have dec: "tbl = [] @ accounts ?s0 @ drop 1000 tbl"
    by (simp add: a0)
  have full: "accounts ?s0 = take 1000 (accounts ?s0 @ drop 1000 tbl)"
    by (simp add: a0)
  have "\<exists>s'. while_accounts now ?api start ?s0 = Some s'
      \<and> accounts s' = []
      \<and> count s' = count ?s0 + length (accounts ?s0 @ drop 1000 tbl)
      \<and> runningTotal s' =
          runningTotal ?s0 + sumTotal (accounts ?s0 @ drop 1000 tbl)
      \<and> runningLockedUp s' =
          runningLockedUp ?s0 + sumLockedUp (accounts ?s0 @ drop 1000 tbl)
      \<and> runningReserved s' =
          runningReserved ?s0 + sumReserved (accounts ?s0 @ drop 1000 tbl)
      \<and> concat (map snd (exchanges s')) =
          concat (map snd (exchanges ?s0)) @ drop 1000 tbl
      \<and> length (exchanges s') = length (exchanges ?s0) +
            (if accounts ?s0 = [] then 0
             else (length (drop 1000 tbl) + 999) div 1000 + 1)"
    using assms dec full by (rule while_snapshot)
  then obtain s' where s': "while_accounts now ?api start ?s0 = Some s'"
    "length (exchanges s') = length (exchanges ?s0) +
       (if accounts ?s0 = [] then 0 else (length (drop 1000 tbl) + 999) div 1000 + 1)"
    by blast
  have "length (exchanges s') = (length tbl + 999) div 1000 + 1"
  proof (cases "tbl = []")
    case True
    then show ?thesis using s'(2) [unfolded a0] by (simp add: initial_fields)
  next
    case False
    then show ?thesis
      using s'(2) [unfolded a0] pages_arith [OF False] by (simp add: initial_fields)
  qed
  then show ?thesis using s'(1) by blast
qed

lemma snapshot_page_bound: "length (fetchAccounts (snapshot tbl ledgers) cursor) \<le> 1000"
  by (simp add: fetch_snapshot readPage_def)


lemma node_serves: "0 < limit \<Longrightarrow> serves (node limit tbl ledgers) tbl"
  by (simp add: serves_def node_def readPage_def take_is_prefix min.coboundedI2)

lemma finish_fields:
  "outcome (finish api s) =
     (case unbonding api of
        Inl e \<Rightarrow> Inl e
      | Inr u \<Rightarrow> Inr \<lparr>lockedUp = runningLockedUp s, total = runningTotal s,
                       reserved_out = runningReserved s, unbonding_out = u\<rparr>)"
  "requested (finish api s) = exchanges s"
  by (simp_all add: finish_def split: sum.split)

lemma outcome_serves:
  assumes "serves api tbl" and "distinct (map fst tbl)"
  shows "map_option outcome (calculateTokenInfo now api) =
     Some (case unbonding api of
        Inl e \<Rightarrow> Inl e
      | Inr u \<Rightarrow> Inr \<lparr>lockedUp = sumLockedUp tbl, total = sumTotal tbl,
                       reserved_out = sumReserved tbl, unbonding_out = u\<rparr>)"
proof -
  obtain s' where s': "while_accounts now api (now 0) (initial api) = Some s'"
    "runningTotal s' = sumTotal tbl" "runningLockedUp s' = sumLockedUp tbl"
    "runningReserved s' = sumReserved tbl"
    using scan_serves [OF assms, of now "now 0"] by blast
  show ?thesis
    by (simp add: calculateTokenInfo_def s' finish_fields split: sum.split)
qed

lemma chained_final:
  assumes "chained api s" and "accounts s = []"
  shows "\<forall>i<length (exchanges s). snd (exchanges s ! i) \<noteq> [] \<longrightarrow>
           Suc i < length (exchanges s)
         \<and> fst (exchanges s ! Suc i) = Some (fst (last (snd (exchanges s ! i))))"
    and "snd (last (exchanges s)) = []"
    and "\<forall>e \<in> set (exchanges s). snd e = fetchAccounts api (fst e)"
    and "fst (hd (exchanges s)) = None"
proof -
  let ?ex = "exchanges s"
  have ne: "?ex \<noteq> []" and la: "snd (last ?ex) = accounts s"
    and ch: "\<And>i. Suc i < length ?ex \<Longrightarrow>
          snd (?ex ! i) \<noteq> [] \<and> fst (?ex ! Suc i) = Some (fst (last (snd (?ex ! i))))"
    and fe: "\<forall>e \<in> set ?ex. snd e = fetchAccounts api (fst e)"
    and hd: "fst (hd ?ex) = None"
    using assms(1) unfolding chained_def by blast+
  show "snd (last ?ex) = []" using la assms(2) by simp
  show "\<forall>e \<in> set ?ex. snd e = fetchAccounts api (fst e)" by (rule fe)
  show "fst (hd ?ex) = None" by (rule hd)
  show "\<forall>i<length ?ex. snd (?ex ! i) \<noteq> [] \<longrightarrow>
           Suc i < length ?ex \<and> fst (?ex ! Suc i) = Some (fst (last (snd (?ex ! i))))"
  proof (intro allI impI)
    fix i
    assume i: "i < length ?ex" and page: "snd (?ex ! i) \<noteq> []"
    have "Suc i \<noteq> length ?ex"
    proof
      assume "Suc i = length ?ex"
      then have "?ex ! i = last ?ex"
        using ne by (metis diff_Suc_1 last_conv_nth)
      with la assms(2) page show False by simp
    qed
    with i have "Suc i < length ?ex" by simp
    with ch [OF this] show "Suc i < length ?ex
        \<and> fst (?ex ! Suc i) = Some (fst (last (snd (?ex ! i))))" by simp
  qed
qed

lemma scan_snapshot:
  fixes now :: "nat \<Rightarrow> 't" and tbl :: "'k accountEntries"
  assumes "distinct (map fst tbl)"
  shows "\<exists>s'. while_accounts now (snapshot tbl ledgers) start (initial (snapshot tbl ledgers)) = Some s'
      \<and> accounts s' = []
      \<and> chained (snapshot tbl ledgers) s'
      \<and> length (exchanges s') = (length tbl + 999) div 1000 + 1"
proof -
  let ?api = "snapshot tbl ledgers"
  let ?s0 = "initial ?api :: ('k, 't) scan"
  obtain s' where s': "while_accounts now ?api start ?s0 = Some s'"
    "accounts s' = []" "chained ?api s'"
    using scan_serves [where api = ?api and now = now and start = start,
        OF snapshot_serves assms] by blast
  obtain s'' where s'': "while_accounts now ?api start ?s0 = Some s''"
    "length (exchanges s'') = (length tbl + 999) div 1000 + 1"
    using scan_snapshot_requests [where now = now and ledgers = ledgers and start = start,
        OF assms] by blast
  from s'(1) s''(1) have "s'' = s'" by simp
  with s' s''(2) show ?thesis by blast
qed

text \<open>A run on two accounts, evaluated step by step.\<close>

lemma two_accounts_run:
  "calculateTokenInfo Suc
     (snapshot
        [(1::nat, \<lparr>data = \<lparr>free = 10, reserved = 5, miscFrozen = 3, feeFrozen = 7\<rparr>\<rparr>),
         (2, \<lparr>data = \<lparr>free = 1, reserved = 1, miscFrozen = 0, feeFrozen = 0\<rparr>\<rparr>)]
        []) =
   Some \<lparr>outcome = Inr \<lparr>lockedUp = 7, total = 17, reserved_out = 6, unbonding_out = 0\<rparr>,
         requested =
           [(None,
             [(1, \<lparr>data = \<lparr>free = 10, reserved = 5, miscFrozen = 3, feeFrozen = 7\<rparr>\<rparr>),
              (2, \<lparr>data = \<lparr>free = 1, reserved = 1, miscFrozen = 0, feeFrozen = 0\<rparr>\<rparr>)]),
            (Some 2, [])],
         printed = [Processed 0 (Suc 0) (Suc 1), TotalAccounts 2]\<rparr>"
  by (simp add: calculateTokenInfo_def initial_def fetchAccounts_def snapshot_def readPage_def
      after_def while_accounts.simps iteration_def progress_def forEntry_def toBigInt_def
      max_bigint_def finish_def unbonding_def Let_def)

text \<open>The pages of a run on three accounts served one per page.\<close>

lemma three_accounts_pages:
  "map_option (\<lambda>s. map snd (exchanges s))
     (while_accounts Suc
        (node 1
           [(1::nat, \<lparr>data = \<lparr>free = 10, reserved = 5, miscFrozen = 3, feeFrozen = 7\<rparr>\<rparr>),
            (2, \<lparr>data = \<lparr>free = 1, reserved = 1, miscFrozen = 0, feeFrozen = 0\<rparr>\<rparr>),
            (3, \<lparr>data = \<lparr>free = 4, reserved = 0, miscFrozen = 2, feeFrozen = 1\<rparr>\<rparr>)]
           [])
        (Suc 0)
        (initial
           (node 1
              [(1::nat, \<lparr>data = \<lparr>free = 10, reserved = 5, miscFrozen = 3, feeFrozen = 7\<rparr>\<rparr>),
               (2, \<lparr>data = \<lparr>free = 1, reserved = 1, miscFrozen = 0, feeFrozen = 0\<rparr>\<rparr>),
               (3, \<lparr>data = \<lparr>free = 4, reserved = 0, miscFrozen = 2, feeFrozen = 1\<rparr>\<rparr>)]
              []))) =
   Some [[(1, \<lparr>data = \<lparr>free = 10, reserved = 5, miscFrozen = 3, feeFrozen = 7\<rparr>\<rparr>)],
         [(2, \<lparr>data = \<lparr>free = 1, reserved = 1, miscFrozen = 0, feeFrozen = 0\<rparr>\<rparr>)],
         [(3, \<lparr>data = \<lparr>free = 4, reserved = 0, miscFrozen = 2, feeFrozen = 1\<rparr>\<rparr>)],
         []]"
  by (simp add: initial_def fetchAccounts_def node_def readPage_def
      after_def while_accounts.simps iteration_def progress_def forEntry_def toBigInt_def
      max_bigint_def Let_def)



text \<open>
  On a handle that is not frozen the order matters. Here the ledger table is empty at the
  first read of the run and holds one chunk of 5 at every later read: the source's order
  reads the ledgers last and returns 5, the other order reads them first and returns 0.
\<close>

lemma two_orders_differ:
  "map_option outcome
     (calculateTokenInfo_remote Suc
        (\<lambda>n. snapshot
           [(1::nat, \<lparr>data = \<lparr>free = 10, reserved = 5, miscFrozen = 3, feeFrozen = 7\<rparr>\<rparr>),
            (2, \<lparr>data = \<lparr>free = 1, reserved = 1, miscFrozen = 0, feeFrozen = 0\<rparr>\<rparr>)]
           (if n = 0 then [] else [(1, Some \<lparr>unlocking = [\<lparr>chunk_value = 5\<rparr>]\<rparr>)]))) =
     Some (Inr \<lparr>lockedUp = 7, total = 17, reserved_out = 6, unbonding_out = 5\<rparr>)
   \<and> map_option outcome
     (calculateTokenInfo_ledger_first Suc
        (\<lambda>n. snapshot
           [(1::nat, \<lparr>data = \<lparr>free = 10, reserved = 5, miscFrozen = 3, feeFrozen = 7\<rparr>\<rparr>),
            (2, \<lparr>data = \<lparr>free = 1, reserved = 1, miscFrozen = 0, feeFrozen = 0\<rparr>\<rparr>)]
           (if n = 0 then [] else [(1, Some \<lparr>unlocking = [\<lparr>chunk_value = 5\<rparr>]\<rparr>)]))) =
     Some (Inr \<lparr>lockedUp = 7, total = 17, reserved_out = 6, unbonding_out = 0\<rparr>)"
  by (simp add: calculateTokenInfo_remote_def calculateTokenInfo_ledger_first_def
      initial_def fetchAccounts_def snapshot_def readPage_def
      after_def while_remote.simps iteration_def progress_def forEntry_def toBigInt_def
      max_bigint_def finish_def unbonding_def unwrap_def unlockingSum_def Let_def)

section \<open>The claims\<close>

text \<open>
  C1. For every account table, with \<open>N\<close> entries under distinct keys, and every node
  that serves it page by page, however it cuts the table into pages, the loop that sends
  each page's last key as the next start key and stops at the first empty page comes to
  an end, the pages it received are, one after the other, exactly the table, so that every
  entry is processed once, the final count is \<open>N\<close>, and the three totals are the sums over
  the whole table.
\<close>

theorem C1_scan_complete:
  assumes "serves api tbl" and "distinct (map fst tbl)"
  shows "\<exists>s'. while_accounts now api (now 0) (initial api) = Some s'
      \<and> calculateTokenInfo now api = Some (finish api s')
      \<and> accounts s' = []
      \<and> concat (map snd (exchanges s')) = tbl
      \<and> count s' = length tbl
      \<and> runningTotal s' =
          (\<Sum>e\<leftarrow>tbl. int (free (data (snd e))) + int (AccountData.reserved (data (snd e))))
      \<and> runningLockedUp s' =
          (\<Sum>e\<leftarrow>tbl. max (int (miscFrozen (data (snd e)))) (int (feeFrozen (data (snd e)))))
      \<and> runningReserved s' = (\<Sum>e\<leftarrow>tbl. int (AccountData.reserved (data (snd e))))"
proof -
  obtain s' where s': "while_accounts now api (now 0) (initial api) = Some s'"
    "accounts s' = []" "count s' = length tbl"
    "runningTotal s' = sumTotal tbl" "runningLockedUp s' = sumLockedUp tbl"
    "runningReserved s' = sumReserved tbl"
    "concat (map snd (exchanges s')) = tbl"
    using scan_serves [OF assms, of now "now 0"] by blast
  have "calculateTokenInfo now api = Some (finish api s')"
    by (simp add: calculateTokenInfo_def s'(1))
  then show ?thesis
    using s' unfolding sumTotal_def sumLockedUp_def sumReserved_def by blast
qed

text \<open>
  Three accounts behind a node that serves one entry per page: the count is 3, and the
  pages received are the three entries, one each, and the empty page.
\<close>

theorem C1_scan_complete_witness:
  "map_option count
     (while_accounts Suc
        (node 1
           [(1::nat, \<lparr>data = \<lparr>free = 10, reserved = 5, miscFrozen = 3, feeFrozen = 7\<rparr>\<rparr>),
            (2, \<lparr>data = \<lparr>free = 1, reserved = 1, miscFrozen = 0, feeFrozen = 0\<rparr>\<rparr>),
            (3, \<lparr>data = \<lparr>free = 4, reserved = 0, miscFrozen = 2, feeFrozen = 1\<rparr>\<rparr>)]
           [])
        (Suc 0)
        (initial
           (node 1
              [(1::nat, \<lparr>data = \<lparr>free = 10, reserved = 5, miscFrozen = 3, feeFrozen = 7\<rparr>\<rparr>),
               (2, \<lparr>data = \<lparr>free = 1, reserved = 1, miscFrozen = 0, feeFrozen = 0\<rparr>\<rparr>),
               (3, \<lparr>data = \<lparr>free = 4, reserved = 0, miscFrozen = 2, feeFrozen = 1\<rparr>\<rparr>)]
              []))) = Some 3
   \<and> map_option (\<lambda>s. map snd (exchanges s))
     (while_accounts Suc
        (node 1
           [(1::nat, \<lparr>data = \<lparr>free = 10, reserved = 5, miscFrozen = 3, feeFrozen = 7\<rparr>\<rparr>),
            (2, \<lparr>data = \<lparr>free = 1, reserved = 1, miscFrozen = 0, feeFrozen = 0\<rparr>\<rparr>),
            (3, \<lparr>data = \<lparr>free = 4, reserved = 0, miscFrozen = 2, feeFrozen = 1\<rparr>\<rparr>)]
           [])
        (Suc 0)
        (initial
           (node 1
              [(1::nat, \<lparr>data = \<lparr>free = 10, reserved = 5, miscFrozen = 3, feeFrozen = 7\<rparr>\<rparr>),
               (2, \<lparr>data = \<lparr>free = 1, reserved = 1, miscFrozen = 0, feeFrozen = 0\<rparr>\<rparr>),
               (3, \<lparr>data = \<lparr>free = 4, reserved = 0, miscFrozen = 2, feeFrozen = 1\<rparr>\<rparr>)]
              []))) =
   Some [[(1, \<lparr>data = \<lparr>free = 10, reserved = 5, miscFrozen = 3, feeFrozen = 7\<rparr>\<rparr>)],
         [(2, \<lparr>data = \<lparr>free = 1, reserved = 1, miscFrozen = 0, feeFrozen = 0\<rparr>\<rparr>)],
         [(3, \<lparr>data = \<lparr>free = 4, reserved = 0, miscFrozen = 2, feeFrozen = 1\<rparr>\<rparr>)],
         []]"
proof -
  let ?tbl = "[(1::nat, \<lparr>data = \<lparr>free = 10, reserved = 5, miscFrozen = 3, feeFrozen = 7\<rparr>\<rparr>),
            (2, \<lparr>data = \<lparr>free = 1, reserved = 1, miscFrozen = 0, feeFrozen = 0\<rparr>\<rparr>),
            (3, \<lparr>data = \<lparr>free = 4, reserved = 0, miscFrozen = 2, feeFrozen = 1\<rparr>\<rparr>)]"
  have s: "serves (node 1 ?tbl []) ?tbl" by (rule node_serves) simp
  have d: "distinct (map fst ?tbl)" by simp
  from C1_scan_complete [OF s d, of Suc] have "map_option count
     (while_accounts Suc (node 1 ?tbl []) (Suc 0) (initial (node 1 ?tbl []))) = Some 3"
    by auto
  then show ?thesis using three_accounts_pages by (rule conjI)
qed

text \<open>
  C2. The account aggregator folds each entry by adding \<open>free + reserved\<close> to the
  total, the larger of \<open>miscFrozen\<close> and \<open>feeFrozen\<close> (never their sum) to the locked-up
  amount, and \<open>reserved\<close> to the reserved amount, for every sequence of entries. The two
  entries (free 10, reserved 5, miscFrozen 3, feeFrozen 7) and (free 1, reserved 1,
  miscFrozen 0, feeFrozen 0) give total 17, locked up 7, reserved 6, and an entry with
  miscFrozen 100 and feeFrozen 40 adds exactly 100 to the locked-up amount.
\<close>

theorem C2_fold_rule:
  "runningTotal (fold forEntry es s) =
     runningTotal s +
     (\<Sum>e\<leftarrow>es. int (free (data (snd e))) + int (AccountData.reserved (data (snd e))))
   \<and> runningLockedUp (fold forEntry es s) =
     runningLockedUp s +
     (\<Sum>e\<leftarrow>es. max (int (miscFrozen (data (snd e)))) (int (feeFrozen (data (snd e)))))
   \<and> runningReserved (fold forEntry es s) =
     runningReserved s + (\<Sum>e\<leftarrow>es. int (AccountData.reserved (data (snd e))))
   \<and> map_option outcome
       (calculateTokenInfo now
          (snapshot
             [(1::nat, \<lparr>data = \<lparr>free = 10, reserved = 5, miscFrozen = 3, feeFrozen = 7\<rparr>\<rparr>),
              (2, \<lparr>data = \<lparr>free = 1, reserved = 1, miscFrozen = 0, feeFrozen = 0\<rparr>\<rparr>)]
             [])) =
     Some (Inr \<lparr>lockedUp = 7, total = 17, reserved_out = 6, unbonding_out = 0\<rparr>)
   \<and> runningLockedUp
       (forEntry (k, \<lparr>data = \<lparr>free = f, reserved = r, miscFrozen = 100, feeFrozen = 40\<rparr>\<rparr>) s) =
     runningLockedUp s + 100"
proof -
  let ?tbl = "[(1::nat, \<lparr>data = \<lparr>free = 10, reserved = 5, miscFrozen = 3, feeFrozen = 7\<rparr>\<rparr>),
              (2, \<lparr>data = \<lparr>free = 1, reserved = 1, miscFrozen = 0, feeFrozen = 0\<rparr>\<rparr>)]"
  have general:
    "runningTotal (fold forEntry es s) = runningTotal s + sumTotal es"
    "runningLockedUp (fold forEntry es s) = runningLockedUp s + sumLockedUp es"
    "runningReserved (fold forEntry es s) = runningReserved s + sumReserved es"
    by (simp_all add: fold_forEntry)
  have d: "distinct (map fst ?tbl)" by simp
  have u: "unbonding (snapshot ?tbl []) = Inr 0"
    by (simp add: unbonding_def snapshot_def)
  have example: "map_option outcome (calculateTokenInfo now (snapshot ?tbl [])) =
      Some (Inr \<lparr>lockedUp = 7, total = 17, reserved_out = 6, unbonding_out = 0\<rparr>)"
    unfolding outcome_serves [OF snapshot_serves d] u
    by (simp add: sumTotal_def sumLockedUp_def sumReserved_def)
  have larger: "runningLockedUp
       (forEntry (k, \<lparr>data = \<lparr>free = f, reserved = r, miscFrozen = 100, feeFrozen = 40\<rparr>\<rparr>) s) =
     runningLockedUp s + 100"
    by (simp add: forEntry_explicit sumLockedUp_def)
  show ?thesis
    using general example larger
    unfolding sumTotal_def sumLockedUp_def sumReserved_def by blast
qed

text \<open>
  C3, as the code has it. The ledger aggregator unwraps every ledger value before it
  reads the unlocking list. When every value is present it returns the sum of every
  chunk's value over all ledgers, a ledger with no chunks adding nothing; when a value is
  absent the unwrap fails and the whole call fails with it. The two present entries of
  the spec's example, chunks 5 and 3 and an empty list, sum to 8.
\<close>

theorem C3_unbonding_unwraps:
  "unbonding api =
     (if \<exists>e \<in> set (entries api). snd e = None then Inl UnwrapNone
      else Inr (\<Sum>e\<leftarrow>entries api. case snd e of
                   None \<Rightarrow> 0
                 | Some l \<Rightarrow> (\<Sum>c\<leftarrow>unlocking l. int (chunk_value c))))
   \<and> unbonding
       (snapshot tbl
          [(a, Some \<lparr>unlocking = [\<lparr>chunk_value = 5\<rparr>, \<lparr>chunk_value = 3\<rparr>]\<rparr>),
           (b, Some \<lparr>unlocking = []\<rparr>)]) = Inr 8"
proof -
  have general: "unbonding api =
     (if \<exists>e \<in> set (entries api). snd e = None then Inl UnwrapNone
      else Inr (sumUnlocking (entries api)))"
    by (rule unbonding_cases)
  have example: "unbonding
       (snapshot tbl
          [(a, Some \<lparr>unlocking = [\<lparr>chunk_value = 5\<rparr>, \<lparr>chunk_value = 3\<rparr>]\<rparr>),
           (b, Some \<lparr>unlocking = []\<rparr>)]) = Inr 8"
    by (simp add: unbonding_cases snapshot_def sumUnlocking_def)
  show ?thesis
    using general example unfolding sumUnlocking_def by blast
qed

text \<open>Two present ledgers with chunks 5, 3 and 4 sum to 12.\<close>

theorem C3_unbonding_unwraps_witness:
  "unbonding
     (snapshot ([] :: nat accountEntries)
        [(1, Some \<lparr>unlocking = [\<lparr>chunk_value = 5\<rparr>, \<lparr>chunk_value = 3\<rparr>]\<rparr>),
         (2, Some \<lparr>unlocking = [\<lparr>chunk_value = 4\<rparr>]\<rparr>)]) = Inr 12"
  using C3_unbonding_unwraps
    [of "snapshot ([] :: nat accountEntries)
        [(1, Some \<lparr>unlocking = [\<lparr>chunk_value = 5\<rparr>, \<lparr>chunk_value = 3\<rparr>]\<rparr>),
         (2, Some \<lparr>unlocking = [\<lparr>chunk_value = 4\<rparr>]\<rparr>)]" "[]" 0 0,
     THEN conjunct1]
  by (simp add: snapshot_def)

text \<open>
  C3, as the spec states it, fails: on the spec's three entries, the third with an absent
  ledger value, the aggregator does not return 8 but fails at the unwrap.
\<close>

theorem C3_absent_ledger_counterexample:
  "unbonding
     (snapshot ([] :: nat accountEntries)
        [(1, Some \<lparr>unlocking = [\<lparr>chunk_value = 5\<rparr>, \<lparr>chunk_value = 3\<rparr>]\<rparr>),
         (2, Some \<lparr>unlocking = []\<rparr>),
         (3, None)]) = Inl UnwrapNone"
  by (simp add: unbonding_def snapshot_def unwrap_def unlockingSum_def toBigInt_def)

text \<open>
  C4. All accumulation in the account aggregator and the ledger aggregator is exact. The
  accumulators are BigInts and every amount added is an unsigned balance. A BigInt has
  no width: for every account table and every ledger table the run returns, and when it
  returns sums they are the exact sums of the amounts, however large, never a sum
  reduced modulo a power of two. No sum leaves the range of a BigInt, so the sentence
  about a sum that would exceed the representable range has no instance. A ledger value
  that is absent fails the run at its unwrap, before its chunks are added.
\<close>

theorem C4_exact_sums:
  assumes "serves api tbl" and "distinct (map fst tbl)"
  shows "map_option outcome (calculateTokenInfo now api) =
     Some (if \<exists>e \<in> set (entries api). snd e = None then Inl UnwrapNone
           else Inr
             \<lparr>lockedUp =
                (\<Sum>e\<leftarrow>tbl. max (int (miscFrozen (data (snd e)))) (int (feeFrozen (data (snd e))))),
              total =
                (\<Sum>e\<leftarrow>tbl. int (free (data (snd e))) + int (AccountData.reserved (data (snd e)))),
              reserved_out = (\<Sum>e\<leftarrow>tbl. int (AccountData.reserved (data (snd e)))),
              unbonding_out =
                (\<Sum>e\<leftarrow>entries api. case snd e of
                     None \<Rightarrow> 0
                   | Some l \<Rightarrow> (\<Sum>c\<leftarrow>unlocking l. int (chunk_value c)))\<rparr>)"
  unfolding outcome_serves [OF assms] unbonding_cases
  by (simp add: sumTotal_def sumLockedUp_def sumReserved_def sumUnlocking_def)

text \<open>Balances next to \<open>2 ^ 128\<close>: every sum passes \<open>2 ^ 128\<close> and is exact.\<close>

theorem C4_exact_sums_witness:
  "map_option outcome
     (calculateTokenInfo Suc
        (snapshot
           [(1::nat, \<lparr>data = \<lparr>free = 2 ^ 128 - 1, reserved = 2 ^ 128 - 1,
                             miscFrozen = 2 ^ 128 - 1, feeFrozen = 5\<rparr>\<rparr>),
            (2, \<lparr>data = \<lparr>free = 2 ^ 128 - 1, reserved = 2, miscFrozen = 0, feeFrozen = 1\<rparr>\<rparr>)]
           [(1, Some \<lparr>unlocking = [\<lparr>chunk_value = 2 ^ 128 - 1\<rparr>, \<lparr>chunk_value = 1\<rparr>]\<rparr>)])) =
   Some (Inr \<lparr>lockedUp = 2 ^ 128, total = 3 * 2 ^ 128 - 1, reserved_out = 2 ^ 128 + 1,
               unbonding_out = 2 ^ 128\<rparr>)"
proof -
  let ?tbl = "[(1::nat, \<lparr>data = \<lparr>free = 2 ^ 128 - 1, reserved = 2 ^ 128 - 1,
                             miscFrozen = 2 ^ 128 - 1, feeFrozen = 5\<rparr>\<rparr>),
            (2, \<lparr>data = \<lparr>free = 2 ^ 128 - 1, reserved = 2, miscFrozen = 0, feeFrozen = 1\<rparr>\<rparr>)]"
  let ?ledgers = "[(1::nat, Some \<lparr>unlocking = [\<lparr>chunk_value = 2 ^ 128 - 1\<rparr>, \<lparr>chunk_value = 1\<rparr>]\<rparr>)]"
  have d: "distinct (map fst ?tbl)" by simp
  have e: "entries (snapshot ?tbl ?ledgers) = ?ledgers" by (simp add: snapshot_def)
  show ?thesis
    unfolding C4_exact_sums [OF snapshot_serves d] e by simp
qed

text \<open>
  C5. For an account table with no entries the aggregation sends exactly one page
  request, the one without a start key, which returns the empty page, and the total, the
  locked-up amount and the reserved amount are 0.
\<close>

theorem C5_empty_table:
  assumes "serves api []"
  shows "\<exists>r. calculateTokenInfo now api = Some r
      \<and> requested r = [(None, [])]
      \<and> outcome r =
          (case unbonding api of
             Inl e \<Rightarrow> Inl e
           | Inr u \<Rightarrow> Inr \<lparr>lockedUp = 0, total = 0, reserved_out = 0, unbonding_out = u\<rparr>)"
proof -
  have page: "fetchAccounts api None = []"
    using serves_first(1) [OF assms] by simp
  have "while_accounts now api (now 0) (initial api) = Some (initial api)"
    by (subst while_accounts.simps) (simp add: initial_fields page)
  then have "calculateTokenInfo now api = Some (finish api (initial api))"
    by (simp add: calculateTokenInfo_def)
  then show ?thesis
    by (simp add: finish_fields initial_fields page split: sum.split)
qed

text \<open>The empty table with no ledgers: one request, all four results 0.\<close>

theorem C5_empty_table_witness:
  "map_option requested (calculateTokenInfo Suc (snapshot ([] :: nat accountEntries) [])) =
     Some [(None, [])]
   \<and> map_option outcome (calculateTokenInfo Suc (snapshot ([] :: nat accountEntries) [])) =
     Some (Inr \<lparr>lockedUp = 0, total = 0, reserved_out = 0, unbonding_out = 0\<rparr>)"
proof -
  have u: "unbonding (snapshot ([] :: nat accountEntries) []) = Inr 0"
    by (simp add: unbonding_def snapshot_def)
  from C5_empty_table [OF snapshot_serves, of Suc "[]"] show ?thesis
    by (auto simp add: u)
qed

text \<open>
  C6. In the scan of a snapshot's account table, every page that is not empty is followed
  by a request whose start key is the key of that page's last entry; the first request
  has no start key and the last page is the empty one. Every page is what the node
  returned for its request and holds at most 1000 entries, the \<open>pageSize\<close> that
  \<open>fetchAccounts\<close> asks for.
\<close>

theorem C6_continuation_keys:
  assumes "distinct (map fst tbl)"
  shows "\<exists>r. calculateTokenInfo now (snapshot tbl ledgers) = Some r
      \<and> requested r \<noteq> []
      \<and> fst (hd (requested r)) = None
      \<and> snd (last (requested r)) = []
      \<and> (\<forall>i<length (requested r). snd (requested r ! i) \<noteq> [] \<longrightarrow>
            Suc i < length (requested r)
          \<and> fst (requested r ! Suc i) = Some (fst (last (snd (requested r ! i)))))
      \<and> (\<forall>e \<in> set (requested r).
            snd e = fetchAccounts (snapshot tbl ledgers) (fst e) \<and> length (snd e) \<le> 1000)"
proof -
  let ?api = "snapshot tbl ledgers"
  obtain s' where s': "while_accounts now ?api (now 0) (initial ?api) = Some s'"
    "accounts s' = []" "chained ?api s'"
    using scan_snapshot [where now = now and ledgers = ledgers and start = "now 0",
        OF assms] by blast
  have run: "calculateTokenInfo now ?api = Some (finish ?api s')"
    by (simp add: calculateTokenInfo_def s'(1))
  have req: "requested (finish ?api s') = exchanges s'"
    by (simp add: finish_fields)
  have ne: "exchanges s' \<noteq> []"
    using s'(3) unfolding chained_def by blast
  note fin = chained_final [OF s'(3) s'(2)]
  have bound: "\<forall>e \<in> set (exchanges s').
      snd e = fetchAccounts ?api (fst e) \<and> length (snd e) \<le> 1000"
  proof
    fix e assume "e \<in> set (exchanges s')"
    with fin(3) have "snd e = fetchAccounts ?api (fst e)" by blast
    then show "snd e = fetchAccounts ?api (fst e) \<and> length (snd e) \<le> 1000"
      using snapshot_page_bound [of tbl ledgers "fst e"] by simp
  qed
  show ?thesis
    using run ne fin(1,2,4) bound unfolding req [symmetric] by blast
qed

text \<open>Two accounts: the first page holds both, the second request carries key 2.\<close>

theorem C6_continuation_keys_witness:
  "map_option requested
     (calculateTokenInfo Suc
        (snapshot
           [(1::nat, \<lparr>data = \<lparr>free = 10, reserved = 5, miscFrozen = 3, feeFrozen = 7\<rparr>\<rparr>),
            (2, \<lparr>data = \<lparr>free = 1, reserved = 1, miscFrozen = 0, feeFrozen = 0\<rparr>\<rparr>)]
           [])) =
   Some [(None,
          [(1, \<lparr>data = \<lparr>free = 10, reserved = 5, miscFrozen = 3, feeFrozen = 7\<rparr>\<rparr>),
           (2, \<lparr>data = \<lparr>free = 1, reserved = 1, miscFrozen = 0, feeFrozen = 0\<rparr>\<rparr>)]),
         (Some 2, [])]"
  using C6_continuation_keys
    [of "[(1::nat, \<lparr>data = \<lparr>free = 10, reserved = 5, miscFrozen = 3, feeFrozen = 7\<rparr>\<rparr>),
          (2, \<lparr>data = \<lparr>free = 1, reserved = 1, miscFrozen = 0, feeFrozen = 0\<rparr>\<rparr>)]"
        Suc "[]"]
  unfolding two_accounts_run by simp

text \<open>
  C7. The result depends on the snapshot alone. Two runs over the same account table and
  the same ledger entries both return, with the same outcome, whatever the clock reads
  in either run and however the two handles cut the table into pages.
\<close>

theorem C7_deterministic:
  assumes "serves api1 tbl" and "serves api2 tbl" and "entries api1 = entries api2"
      and "distinct (map fst tbl)"
  shows "\<exists>r1 r2. calculateTokenInfo now1 api1 = Some r1
      \<and> calculateTokenInfo now2 api2 = Some r2
      \<and> outcome r1 = outcome r2"
proof -
  have u: "unbonding api1 = unbonding api2"
    using assms(3) by (simp add: unbonding_def)
  have "map_option outcome (calculateTokenInfo now1 api1) =
        map_option outcome (calculateTokenInfo now2 api2)"
    unfolding outcome_serves [OF assms(1,4)] outcome_serves [OF assms(2,4)] u by simp
  moreover obtain r1 where "calculateTokenInfo now1 api1 = Some r1"
    using outcome_serves [OF assms(1,4), of now1]
    by (cases "calculateTokenInfo now1 api1") simp_all
  moreover obtain r2 where "calculateTokenInfo now2 api2 = Some r2"
    using outcome_serves [OF assms(2,4), of now2]
    by (cases "calculateTokenInfo now2 api2") simp_all
  ultimately show ?thesis by simp
qed

text \<open>
  The same two accounts behind a node serving full pages and behind a node serving one
  entry per page, read with two different clocks.
\<close>

theorem C7_deterministic_witness:
  "map_option outcome
     (calculateTokenInfo Suc
        (snapshot
           [(1::nat, \<lparr>data = \<lparr>free = 10, reserved = 5, miscFrozen = 3, feeFrozen = 7\<rparr>\<rparr>),
            (2, \<lparr>data = \<lparr>free = 1, reserved = 1, miscFrozen = 0, feeFrozen = 0\<rparr>\<rparr>)]
           [])) =
   map_option outcome
     (calculateTokenInfo (\<lambda>n. 7 * n)
        (node 1
           [(1::nat, \<lparr>data = \<lparr>free = 10, reserved = 5, miscFrozen = 3, feeFrozen = 7\<rparr>\<rparr>),
            (2, \<lparr>data = \<lparr>free = 1, reserved = 1, miscFrozen = 0, feeFrozen = 0\<rparr>\<rparr>)]
           []))"
proof -
  let ?tbl = "[(1::nat, \<lparr>data = \<lparr>free = 10, reserved = 5, miscFrozen = 3, feeFrozen = 7\<rparr>\<rparr>),
            (2, \<lparr>data = \<lparr>free = 1, reserved = 1, miscFrozen = 0, feeFrozen = 0\<rparr>\<rparr>)]"
  have s1: "serves (snapshot ?tbl []) ?tbl" by (rule snapshot_serves)
  have s2: "serves (node 1 ?tbl []) ?tbl" by (rule node_serves) simp
  have e: "entries (snapshot ?tbl []) = entries (node 1 ?tbl [])"
    by (simp add: snapshot_def node_def)
  have d: "distinct (map fst ?tbl)" by simp
  from C7_deterministic [OF s1 s2 e d, of Suc "\<lambda>n. 7 * n"] show ?thesis by auto
qed



text \<open>
  C9. The three running accumulators never decrease during the scan: after the first
  \<open>n\<close> entries each is at least what it was after the first \<open>m \<le> n\<close> entries, and each
  pass of the while loop leaves each at least as large as it found it. The balance
  components are unsigned integers.
\<close>

theorem C9_accumulators_monotone:
  "m \<le> n \<Longrightarrow>
     runningTotal (fold forEntry (take m es) s) \<le> runningTotal (fold forEntry (take n es) s)
   \<and> runningLockedUp (fold forEntry (take m es) s)
       \<le> runningLockedUp (fold forEntry (take n es) s)
   \<and> runningReserved (fold forEntry (take m es) s)
       \<le> runningReserved (fold forEntry (take n es) s)
   \<and> runningTotal s \<le> runningTotal (iteration now api start s)
   \<and> runningLockedUp s \<le> runningLockedUp (iteration now api start s)
   \<and> runningReserved s \<le> runningReserved (iteration now api start s)"
proof -
  assume mn: "m \<le> n"
  have nonneg: "0 \<le> sumTotal xs" "0 \<le> sumLockedUp xs" "0 \<le> sumReserved xs"
    for xs :: "'a accountEntries"
    unfolding sumTotal_def sumLockedUp_def sumReserved_def
    by (rule sum_list_nonneg, auto)+
  have split: "take n es = take m es @ take (n - m) (drop m es)"
    using mn by (metis le_add_diff_inverse take_add)
  show ?thesis
    unfolding split
    using nonneg [of "take (n - m) (drop m es)"] nonneg [of "accounts s"]
    by (simp add: fold_forEntry sums_append iteration_fields)
qed

text \<open>After one entry the total is 15, after two it is 17.\<close>

theorem C9_accumulators_monotone_witness:
  "runningTotal
     (fold forEntry
        (take 1 [(1::nat, \<lparr>data = \<lparr>free = 10, reserved = 5, miscFrozen = 3, feeFrozen = 7\<rparr>\<rparr>),
                 (2, \<lparr>data = \<lparr>free = 1, reserved = 1, miscFrozen = 0, feeFrozen = 0\<rparr>\<rparr>)])
        (initial (snapshot [] []) :: (nat, nat) scan))
   \<le> runningTotal
     (fold forEntry
        (take 2 [(1::nat, \<lparr>data = \<lparr>free = 10, reserved = 5, miscFrozen = 3, feeFrozen = 7\<rparr>\<rparr>),
                 (2, \<lparr>data = \<lparr>free = 1, reserved = 1, miscFrozen = 0, feeFrozen = 0\<rparr>\<rparr>)])
        (initial (snapshot [] []) :: (nat, nat) scan))"
  using C9_accumulators_monotone
    [of 1 2 "[(1::nat, \<lparr>data = \<lparr>free = 10, reserved = 5, miscFrozen = 3, feeFrozen = 7\<rparr>\<rparr>),
                 (2, \<lparr>data = \<lparr>free = 1, reserved = 1, miscFrozen = 0, feeFrozen = 0\<rparr>\<rparr>)]"
        "initial (snapshot [] []) :: (nat, nat) scan"]
  by simp

text \<open>
  C10. For a snapshot's account table with \<open>N\<close> entries, served in full pages of 1000,
  the aggregation sends exactly \<open>\<lceil>N / 1000\<rceil> + 1\<close> page requests, written
  \<open>(N + 999) div 1000 + 1\<close>, and the last of them returns the empty page: also when the
  last page that is not empty is exactly full, and one request for \<open>N = 0\<close>.
\<close>

theorem C10_request_count:
  assumes "distinct (map fst tbl)"
  shows "\<exists>r. calculateTokenInfo now (snapshot tbl ledgers) = Some r
      \<and> length (requested r) = (length tbl + 999) div 1000 + 1
      \<and> snd (last (requested r)) = []"
proof -
  let ?api = "snapshot tbl ledgers"
  obtain s' where s': "while_accounts now ?api (now 0) (initial ?api) = Some s'"
    "accounts s' = []" "chained ?api s'"
    "length (exchanges s') = (length tbl + 999) div 1000 + 1"
    using scan_snapshot [where now = now and ledgers = ledgers and start = "now 0",
        OF assms] by blast
  have run: "calculateTokenInfo now ?api = Some (finish ?api s')"
    by (simp add: calculateTokenInfo_def s'(1))
  have req: "requested (finish ?api s') = exchanges s'"
    by (simp add: finish_fields)
  show ?thesis
    using run s'(4) chained_final(2) [OF s'(3) s'(2)] unfolding req [symmetric] by blast
qed

text \<open>A table of exactly 1000 accounts, one full page: two requests.\<close>

theorem C10_request_count_witness:
  "map_option (\<lambda>r. length (requested r))
     (calculateTokenInfo Suc
        (snapshot
           (map (\<lambda>i. (i, \<lparr>data = \<lparr>free = 1, reserved = 0, miscFrozen = 0, feeFrozen = 0\<rparr>\<rparr>))
              [0..<1000])
           [])) = Some 2"
proof -
  let ?tbl = "map (\<lambda>i. (i, \<lparr>data = \<lparr>free = 1, reserved = 0, miscFrozen = 0, feeFrozen = 0\<rparr>\<rparr>))
              [0..<1000]"
  have "map fst ?tbl = [0..<1000]"
    by (simp add: comp_def)
  then have d: "distinct (map fst ?tbl)"
    by (simp only: distinct_upt)
  have n: "length ?tbl = 1000" by simp
  from C10_request_count [OF d, of Suc "[]"] show ?thesis
    unfolding n by auto
qed

end
